theory Spec2Isabelle
  imports Main "HOL-Library.Multiset"
begin

section \<open>The short-code generator of shorturl-net\<close>

text \<open>
  The embedding follows package \<open>shortcode\<close> (file \<open>internal/config/config.go\<close>, second
  document), the model \<open>ShortLink\<close> and the handlers that touch table \<open>short_links\<close>.
\<close>

subsection \<open>Constants\<close>

definition Charset :: string where
  "Charset = ''abcdefghijklmnopqrstuvwxyzABCDEFGHIJKLMNOPQRSTUVWXYZ0123456789''"

definition CodeLength :: nat where
  "CodeLength = 7"

definition ChannelBufferSize :: nat where
  "ChannelBufferSize = 1000"

definition MinFillThreshold :: nat where
  "MinFillThreshold = 100"

subsection \<open>Results of Go calls\<close>

text \<open>
  A Go function of type \<open>(string, error)\<close> returns a pair whose second component is
  \<open>nil\<close> (\<open>None\<close>) or an error; a run-time panic is the separate outcome \<open>Panic\<close>.
\<close>

datatype error = RandError | DBError

datatype 'a res = Return 'a | Panic

subsection \<open>The entropy source\<close>

text \<open>
  \<open>rand.Int(rand.Reader, big.NewInt(62))\<close> is a library call: each call either fails or
  yields a number. A \<open>reader\<close> lists the outcomes of the calls to come, \<open>rd 0\<close> being the
  next one. The library promises a value below its bound; \<open>rand_contract\<close> says so.
\<close>

datatype draw = Failed | Value nat

type_synonym reader = "nat \<Rightarrow> draw"

definition rand_contract :: "nat \<Rightarrow> reader \<Rightarrow> bool" where
  "rand_contract n rd = (\<forall>j<n. case rd j of Failed \<Rightarrow> True | Value v \<Rightarrow> v < length Charset)"

subsection \<open>generateRandomString\<close>

text \<open>
  The loop \<open>for i := range b\<close>: \<open>k\<close> positions remain, \<open>b\<close> holds the bytes written so
  far. \<open>Charset[num.Int64()]\<close> panics when the index is out of range.
\<close>

fun fill_bytes :: "nat \<Rightarrow> reader \<Rightarrow> string \<Rightarrow> (string \<times> error option) res" where
  "fill_bytes 0 rd b = Return (b, None)"
| "fill_bytes (Suc k) rd b =
     (case rd 0 of
        Failed \<Rightarrow> Return ('''', Some RandError)
      | Value num \<Rightarrow>
          if num < length Charset
          then fill_bytes k (\<lambda>j. rd (Suc j)) (b @ [Charset ! num])
          else Panic)"

definition generateRandomString :: "nat \<Rightarrow> reader \<Rightarrow> (string \<times> error option) res" where
  "generateRandomString len rd = fill_bytes len rd []"

subsection \<open>The durable store\<close>

text \<open>
  \<open>model.ShortLink\<close>, without its two time stamps. The struct has no \<open>DeletedAt\<close> field.
\<close>

record ShortLink =
  ID :: nat
  ShortCode :: string
  OriginalURL :: string
  ClickCount :: int
  IsActive :: bool

text \<open>
  The database handle: the rows of table \<open>short_links\<close>, and whether queries fail at
  present (connection lost, server down).
\<close>

record store =
  short_links :: "ShortLink list"
  unavailable :: bool

text \<open>
  \<open>db.Unscoped().Table("short_links").Where("short_code = ?", code).Count(&count)\<close>:
  the number of rows with that code, or the error of the query.
\<close>

definition count_short_code :: "store \<Rightarrow> string \<Rightarrow> error + int" where
  "count_short_code d code =
     (if unavailable d then Inl DBError
      else Inr (int (length (filter (\<lambda>r. ShortCode r = code) (short_links d)))))"

subsection \<open>isCodeExist\<close>

definition isCodeExist :: "store \<Rightarrow> string \<Rightarrow> bool" where
  "isCodeExist d code =
     (case count_short_code d code of
        Inl err \<Rightarrow> True
      | Inr n \<Rightarrow> n > 0)"

subsection \<open>generateUniqueCode\<close>

text \<open>
  The loop \<open>for i := 0; i < 10; i++\<close> with \<open>k\<close> iterations left. Every iteration that is
  reached consumes \<open>CodeLength\<close> outcomes of the reader.
\<close>

fun attempts :: "nat \<Rightarrow> store \<Rightarrow> reader \<Rightarrow> (string \<times> error option) res" where
  "attempts 0 d rd = Return ('''', None)"
| "attempts (Suc k) d rd =
     (case generateRandomString CodeLength rd of
        Panic \<Rightarrow> Panic
      | Return (code, Some err) \<Rightarrow> Return ('''', Some err)
      | Return (code, None) \<Rightarrow>
          if \<not> isCodeExist d code then Return (code, None)
          else attempts k d (\<lambda>j. rd (j + CodeLength)))"

definition generateUniqueCode :: "store \<Rightarrow> reader \<Rightarrow> (string \<times> error option) res" where
  "generateUniqueCode d rd = attempts 10 d rd"

text \<open>
  The \<open>i\<close>-th candidate that \<open>generateUniqueCode\<close> draws from a reader, and the property
  that the store rejects it.
\<close>

definition candidate :: "reader \<Rightarrow> nat \<Rightarrow> (string \<times> error option) res" where
  "candidate rd i = generateRandomString CodeLength (\<lambda>j. rd (j + i * CodeLength))"

definition taken_candidate :: "store \<Rightarrow> reader \<Rightarrow> nat \<Rightarrow> bool" where
  "taken_candidate d rd i =
     (case candidate rd i of Return (c, None) \<Rightarrow> isCodeExist d c | _ \<Rightarrow> False)"

subsection \<open>The handlers' writes to the store\<close>

text \<open>
  \<open>h.db.Create(&shortLink)\<close> in \<open>CreateShortLink\<close>: column \<open>short_code\<close> has a unique
  index, so a second row with the same code is rejected. The primary key is assigned by
  the store; no property below depends on its value beyond the first row of a table.
\<close>

definition Create :: "store \<Rightarrow> string \<Rightarrow> string \<Rightarrow> error + store" where
  "Create d code url =
     (if unavailable d \<or> code \<in> ShortCode ` set (short_links d) then Inl DBError
      else Inr (d\<lparr>short_links := short_links d @
             [\<lparr>ID = Suc (fold max (map ID (short_links d)) 0), ShortCode = code,
               OriginalURL = url, ClickCount = 0, IsActive = True\<rparr>]\<rparr>))"

text \<open>
  \<open>h.db.Where("short_code = ?", code).Delete(&model.ShortLink{})\<close> in \<open>DeleteLink\<close>.
  GORM turns \<open>Delete\<close> into an update of \<open>deleted_at\<close> only for a model with a
  \<open>gorm.DeletedAt\<close> field; \<open>ShortLink\<close> has none, so the rows are removed.
\<close>

definition DeleteLink :: "store \<Rightarrow> string \<Rightarrow> error + store" where
  "DeleteLink d code =
     (if unavailable d then Inl DBError
      else Inr (d\<lparr>short_links := filter (\<lambda>r. ShortCode r \<noteq> code) (short_links d)\<rparr>))"

text \<open>
  \<open>ToggleLink\<close>: \<open>First\<close> finds the row with the lowest primary key, \<open>Update\<close> writes the
  negated flag to that row.
\<close>

fun toggle_first :: "string \<Rightarrow> ShortLink list \<Rightarrow> ShortLink list" where
  "toggle_first code [] = []"
| "toggle_first code (r # rs) =
     (if ShortCode r = code then r\<lparr>IsActive := \<not> IsActive r\<rparr> # rs
      else r # toggle_first code rs)"

definition ToggleLink :: "store \<Rightarrow> string \<Rightarrow> error + store" where
  "ToggleLink d code =
     (if unavailable d \<or> code \<notin> ShortCode ` set (short_links d) then Inl DBError
      else Inr (d\<lparr>short_links := toggle_first code (short_links d)\<rparr>))"

subsection \<open>Goroutines and the shared state\<close>

text \<open>
  A goroutine is at one of these places. The numbers are the lines of the source file.
  \<^item> \<open>FLock\<close> 161, \<open>FTest\<close> 162, \<open>FBusy\<close> 163-164, \<open>FSet\<close> 166, \<open>FUnlock\<close> 167:
    the entry of \<open>fillChannel\<close>;
  \<^item> \<open>FLoop\<close> 176, \<open>FSelect\<close> 177-181, \<open>FRet\<close> 182-188 (the pair returned by
    \<open>generateUniqueCode\<close>), \<open>FSleep\<close> 185, \<open>FSend\<close> 189: its loop;
  \<^item> \<open>Gen i\<close> 198-202 and \<open>Probe i code\<close> 203-205: iteration \<open>i\<close> of
    \<open>generateUniqueCode\<close>;
  \<^item> \<open>DLock\<close> 170, \<open>DClear\<close> 171, \<open>DUnlock\<close> 172: the deferred function;
  \<^item> \<open>MSelect\<close> 147-155, \<open>MTest\<close> 149: \<open>monitorAndRefill\<close>;
  \<^item> \<open>Idle\<close>: no goroutine has this identifier yet; \<open>Ended\<close>: it has returned.
\<close>

datatype label =
    Idle
  | FLock | FTest | FBusy | FSet | FUnlock
  | FLoop | FSelect
  | Gen nat | Probe nat string
  | FRet string "error option"
  | FSleep
  | FSend string
  | DLock | DClear | DUnlock
  | MSelect | MTest
  | Ended

text \<open>
  \<open>Start\<close> launches \<open>fillChannel\<close> as a goroutine of its own (\<open>Filler\<close>);
  \<open>monitorAndRefill\<close> (\<open>Monitor\<close>) calls it and goes on when it returns.
\<close>

datatype role = Filler | Monitor

type_synonym tid = nat

record thread =
  role :: role
  pc :: label
  panicking :: bool
  ticker :: bool

text \<open>
  The fields of \<open>Generator\<close> (the logger left out) and the goroutines. \<open>codeChan\<close> is the
  buffer of the channel, oldest first. \<open>stopChan\<close> carries no value: only whether it is
  closed matters. \<open>crashed\<close>: the process died of a panic that nothing recovered.
  \<open>sent\<close> and \<open>received\<close> record every code that went into and came out of \<open>codeChan\<close>;
  no step reads them.
\<close>

record world =
  db :: store
  codeChan :: "string list"
  codeChan_closed :: bool
  mu :: bool
  isFilling :: bool
  stopChan_closed :: bool
  threads :: "tid \<Rightarrow> thread"
  crashed :: bool
  sent :: "string list"
  received :: "string list"

definition NewGenerator :: "store \<Rightarrow> world" where
  "NewGenerator d =
     \<lparr>db = d, codeChan = [], codeChan_closed = False, mu = False, isFilling = False,
      stopChan_closed = False,
      threads = (\<lambda>t. \<lparr>role = Filler, pc = Idle, panicking = False, ticker = False\<rparr>),
      crashed = False, sent = [], received = []\<rparr>"

definition at :: "world \<Rightarrow> tid \<Rightarrow> label" where
  "at s t = pc (threads s t)"

definition goto :: "tid \<Rightarrow> label \<Rightarrow> world \<Rightarrow> world" where
  "goto t l s = s\<lparr>threads := (threads s)(t := (threads s t)\<lparr>pc := l\<rparr>)\<rparr>"

text \<open>\<open>g.mu.Unlock()\<close>; unlocking an unlocked mutex is a fatal error of the run time.\<close>

definition Unlock :: "world \<Rightarrow> world" where
  "Unlock s = (if mu s then s\<lparr>mu := False\<rparr> else s\<lparr>crashed := True\<rparr>)"

text \<open>Where control goes when \<open>fillChannel\<close> returns.\<close>

definition return_to :: "role \<Rightarrow> label" where
  "return_to r = (case r of Filler \<Rightarrow> Ended | Monitor \<Rightarrow> MSelect)"

text \<open>
  A panic in the body of \<open>fillChannel\<close> runs the deferred function first; when that
  has returned the panic ends the goroutine and, nothing recovering it, the process.
\<close>

definition unwind :: "tid \<Rightarrow> world \<Rightarrow> world" where
  "unwind t s = s\<lparr>threads := (threads s)(t := (threads s t)\<lparr>pc := DLock, panicking := True\<rparr>)\<rparr>"

subsection \<open>Stop and GetCode\<close>

text \<open>\<open>close(g.stopChan)\<close> panics when the channel is closed already.\<close>

definition Stop :: "world \<Rightarrow> world res" where
  "Stop s = (if stopChan_closed s then Panic else Return (s\<lparr>stopChan_closed := True\<rparr>))"

text \<open>
  \<open>return <-g.codeChan\<close>: the oldest buffered code; the zero value at once when the
  channel is closed and empty; otherwise the caller stays blocked (\<open>None\<close>).
\<close>

definition GetCode :: "world \<Rightarrow> (string \<times> world) option" where
  "GetCode s =
     (case codeChan s of
        code # rest \<Rightarrow> Some (code, s\<lparr>codeChan := rest, received := received s @ [code]\<rparr>)
      | [] \<Rightarrow> if codeChan_closed s then Some ('''', s\<lparr>received := received s @ ['''']\<rparr>) else None)"

subsection \<open>One step of a goroutine\<close>

text \<open>
  \<open>fillChannel\<close> with \<open>generateUniqueCode\<close> inlined. The reader gives the outcomes of the
  \<open>rand.Int\<close> calls of this step. A step that cannot be taken (the mutex is held, the
  channel is full) leaves the state as it is.
\<close>

definition fillChannel :: "tid \<Rightarrow> reader \<Rightarrow> world \<Rightarrow> world" where
  "fillChannel t rd s =
     (case at s t of
        FLock \<Rightarrow> if mu s then s else goto t FTest (s\<lparr>mu := True\<rparr>)
      | FTest \<Rightarrow> if isFilling s then goto t FBusy s else goto t FSet s
      | FBusy \<Rightarrow> goto t (return_to (role (threads s t))) (Unlock s)
      | FSet \<Rightarrow> goto t FUnlock (s\<lparr>isFilling := True\<rparr>)
      | FUnlock \<Rightarrow> goto t FLoop (Unlock s)
      | FLoop \<Rightarrow>
          if length (codeChan s) < ChannelBufferSize then goto t FSelect s else goto t DLock s
      | FSelect \<Rightarrow> if stopChan_closed s then goto t DLock s else goto t (Gen 0) s
      | Gen i \<Rightarrow>
          if i < 10 then
            (case generateRandomString CodeLength rd of
               Panic \<Rightarrow> unwind t s
             | Return (code, Some err) \<Rightarrow> goto t (FRet '''' (Some err)) s
             | Return (code, None) \<Rightarrow> goto t (Probe i code) s)
          else goto t (FRet '''' None) s
      | Probe i code \<Rightarrow>
          if \<not> isCodeExist (db s) code then goto t (FRet code None) s
          else goto t (Gen (Suc i)) s
      | FRet code err \<Rightarrow>
          if err \<noteq> None then goto t FSleep s
          else if code \<noteq> '''' then goto t (FSend code) s
          else goto t FLoop s
      | FSleep \<Rightarrow> goto t FLoop s
      | FSend code \<Rightarrow>
          if length (codeChan s) < ChannelBufferSize
          then goto t FLoop (s\<lparr>codeChan := codeChan s @ [code], sent := sent s @ [code]\<rparr>)
          else s
      | DLock \<Rightarrow> if mu s then s else goto t DClear (s\<lparr>mu := True\<rparr>)
      | DClear \<Rightarrow> goto t DUnlock (s\<lparr>isFilling := False\<rparr>)
      | DUnlock \<Rightarrow>
          if panicking (threads s t) then goto t Ended ((Unlock s)\<lparr>crashed := True\<rparr>)
          else goto t (return_to (role (threads s t))) (Unlock s)
      | _ \<Rightarrow> s)"

text \<open>
  \<open>monitorAndRefill\<close>. When both cases of the \<open>select\<close> are ready Go picks one at random:
  \<open>pick\<close> says whether it is the ticker. \<open>ticker\<close> says that a tick waits in \<open>ticker.C\<close>.
\<close>

definition monitorAndRefill :: "tid \<Rightarrow> bool \<Rightarrow> world \<Rightarrow> world" where
  "monitorAndRefill t pick s =
     (case at s t of
        MSelect \<Rightarrow>
          if ticker (threads s t) \<and> (\<not> stopChan_closed s \<or> pick)
          then s\<lparr>threads := (threads s)(t := (threads s t)\<lparr>pc := MTest, ticker := False\<rparr>)\<rparr>
          else if stopChan_closed s then goto t Ended s
          else s
      | MTest \<Rightarrow>
          if length (codeChan s) < MinFillThreshold then goto t FLock s else goto t MSelect s
      | _ \<Rightarrow> s)"

definition in_monitor :: "label \<Rightarrow> bool" where
  "in_monitor l = (l = MSelect \<or> l = MTest)"

text \<open>The places of the loop body, where the deferred function is registered.\<close>

fun in_body :: "label \<Rightarrow> bool" where
  "in_body FLoop = True"
| "in_body FSelect = True"
| "in_body (Gen i) = True"
| "in_body (Probe i code) = True"
| "in_body (FRet code err) = True"
| "in_body FSleep = True"
| "in_body (FSend code) = True"
| "in_body _ = False"

subsection \<open>The interleaving\<close>

text \<open>
  What can happen next: a call of \<open>Start\<close> (with the identifiers of the two goroutines
  it launches), of \<open>Stop\<close>, of \<open>GetCode\<close>; a step of a goroutine; a tick of a monitor's
  ticker (it runs from the start of the monitor until the deferred \<open>ticker.Stop()\<close>); a
  panic raised inside the loop of a pass; a write of a handler to the store; an outage of
  the store or its end.
\<close>

datatype action =
    CallStart tid tid
  | CallStop
  | CallGetCode
  | Run tid reader bool
  | Tick tid
  | Raise tid
  | DoCreate string string
  | DoDelete string
  | DoToggle string
  | Outage bool

definition Start :: "tid \<Rightarrow> tid \<Rightarrow> world \<Rightarrow> world" where
  "Start a b s =
     (if a \<noteq> b \<and> at s a = Idle \<and> at s b = Idle
      then s\<lparr>threads := (threads s)
             (a := \<lparr>role = Filler, pc = FLock, panicking = False, ticker = False\<rparr>,
              b := \<lparr>role = Monitor, pc = MSelect, panicking = False, ticker = False\<rparr>)\<rparr>
      else s)"

definition write_db :: "(error + store) \<Rightarrow> world \<Rightarrow> world" where
  "write_db r s = (case r of Inl err \<Rightarrow> s | Inr d \<Rightarrow> s\<lparr>db := d\<rparr>)"

fun act :: "action \<Rightarrow> world \<Rightarrow> world" where
  "act (CallStart a b) s = Start a b s"
| "act CallStop s = (case Stop s of Panic \<Rightarrow> s\<lparr>crashed := True\<rparr> | Return s' \<Rightarrow> s')"
| "act CallGetCode s = (case GetCode s of None \<Rightarrow> s | Some (code, s') \<Rightarrow> s')"
| "act (Run t rd pick) s =
     (if in_monitor (at s t) then monitorAndRefill t pick s else fillChannel t rd s)"
| "act (Tick t) s =
     (if role (threads s t) = Monitor \<and> at s t \<noteq> Ended
      then s\<lparr>threads := (threads s)(t := (threads s t)\<lparr>ticker := True\<rparr>)\<rparr> else s)"
| "act (Raise t) s = (if in_body (at s t) then unwind t s else s)"
| "act (DoCreate code url) s = write_db (Create (db s) code url) s"
| "act (DoDelete code) s = write_db (DeleteLink (db s) code) s"
| "act (DoToggle code) s = write_db (ToggleLink (db s) code) s"
| "act (Outage b) s = s\<lparr>db := (db s)\<lparr>unavailable := b\<rparr>\<rparr>"

text \<open>A dead process takes no step.\<close>

definition step :: "action \<Rightarrow> world \<Rightarrow> world" where
  "step a s = (if crashed s then s else act a s)"

fun run :: "action list \<Rightarrow> world \<Rightarrow> world" where
  "run [] s = s"
| "run (a # as) s = run as (step a s)"

text \<open>
  A goroutine at iteration \<open>10 - k\<close> of \<open>generateUniqueCode\<close> runs on its own, with no
  step of another goroutine or of a handler in between, until the call returns; the
  outcomes of its draws come from one reader, as they do in \<open>attempts\<close>.
\<close>

fun solo_attempts :: "nat \<Rightarrow> tid \<Rightarrow> reader \<Rightarrow> world \<Rightarrow> world" where
  "solo_attempts 0 t rd s = step (Run t rd False) s"
| "solo_attempts (Suc k) t rd s =
     (let s1 = step (Run t rd False) s in
      case at s1 t of
        Probe i code \<Rightarrow>
          (let s2 = step (Run t rd False) s1 in
           case at s2 t of
             Gen j \<Rightarrow> solo_attempts k t (\<lambda>j. rd (j + CodeLength)) s2
           | _ \<Rightarrow> s2)
      | _ \<Rightarrow> s1)"

subsection \<open>Places of interest\<close>

text \<open>The places where a goroutine holds \<open>g.mu\<close>.\<close>

fun holds_mu :: "label \<Rightarrow> bool" where
  "holds_mu FTest = True"
| "holds_mu FBusy = True"
| "holds_mu FSet = True"
| "holds_mu FUnlock = True"
| "holds_mu DClear = True"
| "holds_mu DUnlock = True"
| "holds_mu _ = False"

text \<open>
  The filling critical section: from the place after \<open>g.isFilling = true\<close> up to the
  place before \<open>g.isFilling = false\<close>.
\<close>

fun in_pass :: "label \<Rightarrow> bool" where
  "in_pass FUnlock = True"
| "in_pass DLock = True"
| "in_pass DClear = True"
| "in_pass l = in_body l"

text \<open>The places between the test of the loop condition and the send.\<close>

fun needs_room :: "label \<Rightarrow> bool" where
  "needs_room FSelect = True"
| "needs_room (Gen i) = True"
| "needs_room (Probe i code) = True"
| "needs_room (FRet code err) = True"
| "needs_room (FSend code) = True"
| "needs_room _ = False"







text \<open>
  The goroutines that hold the mutex and those inside the critical section, and the two
  invariants of the interleaving: the mutex and the flag each stand for exactly one
  goroutine; the channel never exceeds its capacity and has room whenever a goroutine is
  between the loop test and the send.
\<close>

definition mu_holders :: "world \<Rightarrow> tid set" where
  "mu_holders s = {t. holds_mu (at s t)}"

definition fillers :: "world \<Rightarrow> tid set" where
  "fillers s = {t. in_pass (at s t)}"

definition single_flight :: "world \<Rightarrow> bool" where
  "single_flight s =
     ((if mu s then \<exists>t. mu_holders s = {t} else mu_holders s = {}) \<and>
      (if isFilling s then \<exists>t. fillers s = {t} else fillers s = {}) \<and>
      (\<forall>t. at s t = FSet \<longrightarrow> \<not> isFilling s))"

definition has_room :: "world \<Rightarrow> bool" where
  "has_room s =
     (length (codeChan s) \<le> ChannelBufferSize \<and>
      (\<forall>t. needs_room (at s t) \<longrightarrow> length (codeChan s) < ChannelBufferSize))"


subsection \<open>Concrete stores, readers and runs\<close>

definition down_store :: store where
  "down_store = \<lparr>short_links = [], unavailable = True\<rparr>"

definition empty_store :: store where
  "empty_store = \<lparr>short_links = [], unavailable = False\<rparr>"

text \<open>Nine rows with the codes \<open>aaaaaaa\<close> to \<open>iiiiiii\<close>.\<close>

definition nine_codes :: store where
  "nine_codes = \<lparr>short_links = map (\<lambda>i. \<lparr>ID = Suc i, ShortCode = replicate 7 (Charset ! i),
      OriginalURL = ''https://example.org'', ClickCount = 0, IsActive = True\<rparr>) [0..<9],
     unavailable = False\<rparr>"

text \<open>A reader whose \<open>i\<close>-th group of seven outcomes is \<open>i\<close>, and one that counts by nines.\<close>

definition by_sevens :: reader where
  "by_sevens j = Value (j div 7)"

definition ascending :: reader where
  "ascending j = Value (j * 9)"

definition zeros :: reader where
  "zeros j = Value 0"

definition ones :: reader where
  "ones j = Value 1"

text \<open>
  \<open>Start\<close>, then goroutine 0 alone: ten steps take it through the entry of
  \<open>fillChannel\<close> and one turn of the loop, six more through a second turn.
\<close>

definition one_turn :: "action list" where
  "one_turn = CallStart 0 1 # replicate 10 (Run 0 zeros False)"

definition two_turns :: "action list" where
  "two_turns = one_turn @ replicate 6 (Run 0 zeros False)"

definition two_codes :: "action list" where
  "two_codes = one_turn @ replicate 6 (Run 0 ones False)"

text \<open>
  Goroutine 0 enters the pass; the monitor (goroutine 1) takes a tick, finds the channel
  below the threshold and calls \<open>fillChannel\<close>.
\<close>

definition busy_run :: "action list" where
  "busy_run = CallStart 0 1 # replicate 4 (Run 0 zeros False) @
              [Tick 1, Run 1 zeros False, Run 1 zeros False]"

text \<open>
  Goroutine 0 enters the pass, \<open>Stop\<close> is called, and goroutine 0 goes on to the
  assignment in the deferred function.
\<close>

definition stop_run :: "action list" where
  "stop_run = CallStart 0 1 # replicate 4 (Run 0 zeros False) @
              CallStop # replicate 3 (Run 0 zeros False)"

text \<open>One turn of the loop and then \<open>Stop\<close>; and nine steps, up to the send.\<close>

definition stopped_with_code :: "action list" where
  "stopped_with_code = one_turn @ [CallStop]"

definition before_send :: "action list" where
  "before_send = CallStart 0 1 # replicate 9 (Run 0 zeros False)"



text \<open>A store with the one link \<open>aaaaaaa\<close>, active and deactivated.\<close>

definition one_link :: store where
  "one_link = \<lparr>short_links = [\<lparr>ID = 1, ShortCode = ''aaaaaaa'',
      OriginalURL = ''https://example.org'', ClickCount = 0, IsActive = True\<rparr>],
     unavailable = False\<rparr>"

definition one_link_off :: store where
  "one_link_off = \<lparr>short_links = [\<lparr>ID = 1, ShortCode = ''aaaaaaa'',
      OriginalURL = ''https://example.org'', ClickCount = 0, IsActive = False\<rparr>],
     unavailable = False\<rparr>"

text \<open>
  The link \<open>aaaaaaa\<close> is created and deleted by the handlers; then the generator starts,
  goroutine 0 makes one turn of its loop, and a handler calls \<open>GetCode\<close>.
\<close>

definition reissue_run :: "action list" where
  "reissue_run = DoCreate ''aaaaaaa'' ''https://example.org'' # DoDelete ''aaaaaaa'' #
                 one_turn @ [CallGetCode]"

text \<open>
  Goroutine 0 on the store \<open>nine_codes\<close>, up to its first call of
  \<open>generateUniqueCode\<close>.
\<close>

definition first_call :: "action list" where
  "first_call = CallStart 0 1 # replicate 6 (Run 0 zeros False)"





section \<open>Properties\<close>

subsection \<open>The alphabet and generateRandomString\<close>

lemma Charset_length: "length Charset = 62"
  by (simp add: Charset_def)

lemma Charset_distinct: "distinct Charset"
  by (simp add: Charset_def)

lemma Charset_set:
  "set Charset = set (map char_of ([97..<123] @ [65..<91] @ [48..<58] :: nat list))"
  by (simp add: Charset_def) code_simp

lemma fill_bytes_failed:
  "rand_contract k rd \<Longrightarrow> \<exists>j<k. rd j = Failed \<Longrightarrow>
   fill_bytes k rd b = Return ('''', Some RandError)"
proof (induction k arbitrary: rd b)
  case 0
  then show ?case by simp
next
  case (Suc k)
  show ?case
  proof (cases "rd 0")
    case Failed
    then show ?thesis by simp
  next
    case (Value v)
    from Suc.prems(1) Value have v: "v < length Charset"
      by (auto simp: rand_contract_def split: draw.splits)
    from Suc.prems(1) have c: "rand_contract k (\<lambda>j. rd (Suc j))"
      by (auto simp: rand_contract_def)
    from Suc.prems(2) Value obtain j where "j < k" "rd (Suc j) = Failed"
      by (metis draw.distinct(1) less_Suc_eq_0_disj)
    then have "\<exists>j<k. (\<lambda>j. rd (Suc j)) j = Failed" by blast
    from Suc.IH[OF c this] Value v show ?thesis by simp
  qed
qed

lemma fill_bytes_ok:
  "rand_contract k rd \<Longrightarrow> \<forall>j<k. rd j \<noteq> Failed \<Longrightarrow>
   \<exists>s. fill_bytes k rd b = Return (b @ s, None) \<and> length s = k \<and>
       (\<forall>j<k. \<exists>v. rd j = Value v \<and> v < length Charset \<and> s ! j = Charset ! v)"
proof (induction k arbitrary: rd b)
  case 0
  then show ?case by simp
next
  case (Suc k)
  from Suc.prems(2) obtain v where Value: "rd 0 = Value v"
    by (cases "rd 0") auto
  from Suc.prems(1) Value have v: "v < length Charset"
    by (auto simp: rand_contract_def split: draw.splits)
  from Suc.prems(1) have c: "rand_contract k (\<lambda>j. rd (Suc j))"
    by (auto simp: rand_contract_def)
  from Suc.prems(2) have "\<forall>j<k. (\<lambda>j. rd (Suc j)) j \<noteq> Failed" by auto
  from Suc.IH[OF c this, of "b @ [Charset ! v]"] obtain s where
    s: "fill_bytes k (\<lambda>j. rd (Suc j)) (b @ [Charset ! v]) = Return ((b @ [Charset ! v]) @ s, None)"
       "length s = k"
       "\<forall>j<k. \<exists>w. rd (Suc j) = Value w \<and> w < length Charset \<and> s ! j = Charset ! w"
    by auto
  have "\<forall>j<Suc k. \<exists>w. rd j = Value w \<and> w < length Charset \<and> ((Charset ! v) # s) ! j = Charset ! w"
  proof (intro allI impI)
    fix j assume "j < Suc k"
    then show "\<exists>w. rd j = Value w \<and> w < length Charset \<and> ((Charset ! v) # s) ! j = Charset ! w"
      using s(3) Value v by (cases j) auto
  qed
  with s(1,2) Value v show ?case
    by (intro exI[of _ "(Charset ! v) # s"]) simp
qed

text \<open>
  C7. Under the contract of \<open>rand.Int\<close>, \<open>generateRandomString CodeLength\<close> has two
  outcomes and no other: when one of its seven draws fails it returns the empty string
  with the error; when none fails it returns, without error, a string of exactly 7
  characters, the \<open>j\<close>-th being the character of \<open>Charset\<close> at the \<open>j\<close>-th number drawn.
  \<open>Charset\<close> has 62 distinct characters: a-z, A-Z and 0-9.
\<close>

theorem generateRandomString_outcomes:
  assumes "rand_contract CodeLength rd"
  shows "length Charset = 62 \<and> distinct Charset \<and>
         set Charset = set (map char_of ([97..<123] @ [65..<91] @ [48..<58] :: nat list)) \<and>
         ((\<exists>j<CodeLength. rd j = Failed) \<longrightarrow>
            generateRandomString CodeLength rd = Return ('''', Some RandError)) \<and>
         ((\<forall>j<CodeLength. rd j \<noteq> Failed) \<longrightarrow>
            (\<exists>s. generateRandomString CodeLength rd = Return (s, None) \<and> length s = 7 \<and>
                 set s \<subseteq> set Charset \<and>
                 (\<forall>j<CodeLength. \<exists>v. rd j = Value v \<and> s ! j = Charset ! v)))"
proof -
  have ok: "\<exists>s. generateRandomString CodeLength rd = Return (s, None) \<and> length s = 7 \<and>
                 set s \<subseteq> set Charset \<and>
                 (\<forall>j<CodeLength. \<exists>v. rd j = Value v \<and> s ! j = Charset ! v)"
    if nf: "\<forall>j<CodeLength. rd j \<noteq> Failed"
  proof -
    from fill_bytes_ok[OF assms nf, of "[]"] obtain s where
      s: "fill_bytes CodeLength rd [] = Return (s, None)" "length s = CodeLength"
         "\<forall>j<CodeLength. \<exists>v. rd j = Value v \<and> v < length Charset \<and> s ! j = Charset ! v"
      by auto
    have "set s \<subseteq> set Charset"
    proof
      fix x assume "x \<in> set s"
      then obtain j where "j < length s" "s ! j = x" by (auto simp: in_set_conv_nth)
      with s(2,3) show "x \<in> set Charset" by (metis nth_mem)
    qed
    with s show ?thesis
      by (auto simp: generateRandomString_def CodeLength_def)
  qed
  show ?thesis
    using fill_bytes_failed[OF assms, of "[]"] ok Charset_length Charset_distinct Charset_set
    by (simp add: generateRandomString_def)
qed

theorem generateRandomString_outcomes_witness:
  "rand_contract CodeLength ascending \<and>
   generateRandomString CodeLength ascending = Return (''ajsBKT2'', None) \<and>
   rand_contract CodeLength (\<lambda>j. if j = 3 then Failed else Value j) \<and>
   generateRandomString CodeLength (\<lambda>j. if j = 3 then Failed else Value j) =
     Return ('''', Some RandError)"
  using generateRandomString_outcomes[of ascending]
        generateRandomString_outcomes[of "\<lambda>j. if j = 3 then Failed else Value j"]
  by (simp add: rand_contract_def CodeLength_def ascending_def generateRandomString_def
      Charset_def eval_nat_numeral)

subsection \<open>isCodeExist\<close>

text \<open>
  C2. When the count query returns an error, \<open>isCodeExist\<close> reports the candidate as
  existing, whatever the candidate and the rows of the store.
\<close>

theorem isCodeExist_fail_closed:
  "count_short_code d code = Inl err \<Longrightarrow> isCodeExist d code = True"
  by (simp add: isCodeExist_def)

theorem isCodeExist_fail_closed_witness:
  "count_short_code down_store ''abcdefg'' = Inl DBError \<and>
   isCodeExist down_store ''abcdefg'' = True"
  using isCodeExist_fail_closed[of down_store "''abcdefg''" DBError]
  by (simp add: count_short_code_def down_store_def)

subsection \<open>generateUniqueCode\<close>

lemma candidate_shift:
  "candidate (\<lambda>j. rd (j + CodeLength)) i = candidate rd (Suc i)"
  by (simp add: candidate_def ac_simps)

lemma candidate_0: "candidate rd 0 = generateRandomString CodeLength rd"
  by (simp add: candidate_def)

lemma attempts_first_fresh:
  "k < n \<Longrightarrow> \<forall>i<k. \<exists>c. candidate rd i = Return (c, None) \<and> isCodeExist d c \<Longrightarrow>
   candidate rd k = Return (code, None) \<Longrightarrow> \<not> isCodeExist d code \<Longrightarrow>
   attempts n d rd = Return (code, None)"
proof (induction n arbitrary: rd k)
  case 0
  then show ?case by simp
next
  case (Suc n)
  show ?case
  proof (cases k)
    case 0
    with Suc.prems show ?thesis by (simp add: candidate_0)
  next
    case (Suc k')
    with Suc.prems(2) obtain c where c: "candidate rd 0 = Return (c, None)" "isCodeExist d c"
      by auto
    have "attempts n d (\<lambda>j. rd (j + CodeLength)) = Return (code, None)"
    proof (rule Suc.IH[of k'])
      show "k' < n" using Suc.prems(1) Suc by simp
      show "\<forall>i<k'. \<exists>c. candidate (\<lambda>j. rd (j + CodeLength)) i = Return (c, None) \<and> isCodeExist d c"
        using Suc.prems(2) Suc by (simp add: candidate_shift)
      show "candidate (\<lambda>j. rd (j + CodeLength)) k' = Return (code, None)"
        using Suc.prems(3) Suc by (simp add: candidate_shift)
      show "\<not> isCodeExist d code" by (rule Suc.prems(4))
    qed
    with c show ?thesis by (simp add: candidate_0)
  qed
qed

lemma attempts_exhausted:
  "\<forall>i<n. \<exists>c. candidate rd i = Return (c, None) \<and> isCodeExist d c \<Longrightarrow>
   attempts n d rd = Return ('''', None)"
proof (induction n arbitrary: rd)
  case 0
  then show ?case by simp
next
  case (Suc n)
  from Suc.prems obtain c where c: "candidate rd 0 = Return (c, None)" "isCodeExist d c"
    by auto
  have "attempts n d (\<lambda>j. rd (j + CodeLength)) = Return ('''', None)"
    by (rule Suc.IH) (use Suc.prems in \<open>simp add: candidate_shift\<close>)
  with c show ?case by (simp add: candidate_0)
qed

lemma fill_bytes_cong:
  "\<forall>j<k. rd j = rd' j \<Longrightarrow> fill_bytes k rd b = fill_bytes k rd' b"
proof (induction k arbitrary: rd rd' b)
  case 0
  then show ?case by simp
next
  case (Suc k)
  have "fill_bytes k (\<lambda>j. rd (Suc j)) b' = fill_bytes k (\<lambda>j. rd' (Suc j)) b'" for b'
    by (rule Suc.IH) (use Suc.prems in auto)
  moreover have "rd 0 = rd' 0" using Suc.prems by simp
  ultimately show ?case by (simp split: draw.splits)
qed

lemma attempts_cong:
  "\<forall>j<n * CodeLength. rd j = rd' j \<Longrightarrow> attempts n d rd = attempts n d rd'"
proof (induction n arbitrary: rd rd')
  case 0
  then show ?case by simp
next
  case (Suc n)
  have g: "generateRandomString CodeLength rd = generateRandomString CodeLength rd'"
    unfolding generateRandomString_def
    by (rule fill_bytes_cong) (use Suc.prems in simp)
  have "attempts n d (\<lambda>j. rd (j + CodeLength)) = attempts n d (\<lambda>j. rd' (j + CodeLength))"
    by (rule Suc.IH) (use Suc.prems in simp)
  with g show ?case by (simp split: res.splits prod.splits option.splits)
qed

lemma taken_candidateD:
  "list_all (taken_candidate d rd) [0..<n] \<longrightarrow>
   (\<forall>i<n. \<exists>c. candidate rd i = Return (c, None) \<and> isCodeExist d c)"
proof (intro allI impI)
  fix i assume a: "list_all (taken_candidate d rd) [0..<n]" and "i < n"
  then have "taken_candidate d rd i" by (simp add: list_all_iff)
  then show "\<exists>c. candidate rd i = Return (c, None) \<and> isCodeExist d c"
    unfolding taken_candidate_def
    by (cases "candidate rd i") (auto split: option.splits)
qed

lemma nine_codes_hyp: "list_all (taken_candidate nine_codes by_sevens) [0..<9]"
  by code_simp

lemma nine_codes_tenth:
  "candidate by_sevens 9 = Return (''jjjjjjj'', None) \<and> \<not> isCodeExist nine_codes ''jjjjjjj''"
  by code_simp

lemma all_a_hyp: "list_all (taken_candidate nine_codes zeros) [0..<10]"
  by code_simp


subsection \<open>Invariants of the interleaving\<close>

lemma at_goto [simp]: "at (goto t l s) u = (if u = t then l else at s u)"
  by (simp add: at_def goto_def)

lemma at_unwind [simp]: "at (unwind t s) u = (if u = t then DLock else at s u)"
  by (simp add: at_def unwind_def)

lemma goto_fields [simp]:
  "mu (goto t l s) = mu s" "isFilling (goto t l s) = isFilling s"
  "codeChan (goto t l s) = codeChan s" "codeChan_closed (goto t l s) = codeChan_closed s"
  "stopChan_closed (goto t l s) = stopChan_closed s" "crashed (goto t l s) = crashed s"
  "db (goto t l s) = db s" "sent (goto t l s) = sent s" "received (goto t l s) = received s"
  by (simp_all add: goto_def)

lemma unwind_fields [simp]:
  "mu (unwind t s) = mu s" "isFilling (unwind t s) = isFilling s"
  "codeChan (unwind t s) = codeChan s" "codeChan_closed (unwind t s) = codeChan_closed s"
  "stopChan_closed (unwind t s) = stopChan_closed s" "crashed (unwind t s) = crashed s"
  "db (unwind t s) = db s" "sent (unwind t s) = sent s" "received (unwind t s) = received s"
  by (simp_all add: unwind_def)

lemma Unlock_fields [simp]:
  "mu (Unlock s) = False" "isFilling (Unlock s) = isFilling s"
  "codeChan (Unlock s) = codeChan s" "codeChan_closed (Unlock s) = codeChan_closed s"
  "stopChan_closed (Unlock s) = stopChan_closed s" "threads (Unlock s) = threads s"
  "db (Unlock s) = db s" "sent (Unlock s) = sent s" "received (Unlock s) = received s"
  "at (Unlock s) u = at s u"
  by (simp_all add: Unlock_def at_def)

lemma at_upd [simp]:
  "at (s\<lparr>mu := m\<rparr>) u = at s u" "at (s\<lparr>isFilling := b\<rparr>) u = at s u"
  "at (s\<lparr>crashed := b\<rparr>) u = at s u" "at (s\<lparr>db := d\<rparr>) u = at s u"
  "at (s\<lparr>stopChan_closed := b\<rparr>) u = at s u"
  "at (s\<lparr>codeChan := c\<rparr>) u = at s u"
  "at (s\<lparr>sent := x\<rparr>) u = at s u"
  "at (s\<lparr>received := x\<rparr>) u = at s u"
  by (simp_all add: at_def)

lemma mu_holders_goto [simp]:
  "mu_holders (goto t l s) = (if holds_mu l then insert t (mu_holders s) else mu_holders s - {t})"
  by (auto simp: mu_holders_def)

lemma fillers_goto [simp]:
  "fillers (goto t l s) = (if in_pass l then insert t (fillers s) else fillers s - {t})"
  by (auto simp: fillers_def)

lemma mu_holders_unwind [simp]: "mu_holders (unwind t s) = mu_holders s - {t}"
  by (auto simp: mu_holders_def)

lemma fillers_unwind [simp]: "fillers (unwind t s) = insert t (fillers s)"
  by (auto simp: fillers_def)

lemma sets_upd [simp]:
  "mu_holders (s\<lparr>mu := m\<rparr>) = mu_holders s" "mu_holders (s\<lparr>isFilling := b\<rparr>) = mu_holders s"
  "mu_holders (s\<lparr>crashed := b\<rparr>) = mu_holders s" "mu_holders (s\<lparr>db := d\<rparr>) = mu_holders s"
  "mu_holders (s\<lparr>stopChan_closed := b\<rparr>) = mu_holders s"
  "mu_holders (s\<lparr>codeChan := c\<rparr>) = mu_holders s"
  "mu_holders (s\<lparr>sent := x\<rparr>) = mu_holders s"
  "mu_holders (s\<lparr>received := x\<rparr>) = mu_holders s"
  "mu_holders (Unlock s) = mu_holders s"
  "fillers (s\<lparr>mu := m\<rparr>) = fillers s" "fillers (s\<lparr>isFilling := b\<rparr>) = fillers s"
  "fillers (s\<lparr>crashed := b\<rparr>) = fillers s" "fillers (s\<lparr>db := d\<rparr>) = fillers s"
  "fillers (s\<lparr>stopChan_closed := b\<rparr>) = fillers s"
  "fillers (s\<lparr>codeChan := c\<rparr>) = fillers s"
  "fillers (s\<lparr>sent := x\<rparr>) = fillers s"
  "fillers (s\<lparr>received := x\<rparr>) = fillers s"
  "fillers (Unlock s) = fillers s"
  by (simp_all add: mu_holders_def fillers_def)

lemma single_flight_init: "single_flight (NewGenerator d)"
  by (simp add: single_flight_def NewGenerator_def at_def mu_holders_def fillers_def)

lemma in_setsI:
  "holds_mu (at s t) \<Longrightarrow> t \<in> mu_holders s" "in_pass (at s t) \<Longrightarrow> t \<in> fillers s"
  by (simp_all add: mu_holders_def fillers_def)

lemma not_in_sets:
  "\<not> holds_mu (at s t) \<Longrightarrow> t \<notin> mu_holders s" "\<not> in_pass (at s t) \<Longrightarrow> t \<notin> fillers s"
  by (simp_all add: mu_holders_def fillers_def)

lemma FSet_holder: "at s u = FSet \<Longrightarrow> u \<in> mu_holders s"
  by (simp add: mu_holders_def)

lemma single_flight_fill:
  assumes "single_flight s"
  shows "single_flight (fillChannel t rd s)"
  using assms in_setsI[of s t] not_in_sets[of s t]
  by (cases "at s t")
     (auto simp: single_flight_def fillChannel_def return_to_def dest: FSet_holder
           split: res.splits option.splits role.splits if_splits)

lemma mu_holders_threads [simp]:
  "mu_holders (s\<lparr>threads := f(t := th)\<rparr>) =
     (if holds_mu (pc th) then insert t (mu_holders (s\<lparr>threads := f\<rparr>))
      else mu_holders (s\<lparr>threads := f\<rparr>) - {t})"
  by (auto simp: mu_holders_def at_def)

lemma fillers_threads [simp]:
  "fillers (s\<lparr>threads := f(t := th)\<rparr>) =
     (if in_pass (pc th) then insert t (fillers (s\<lparr>threads := f\<rparr>))
      else fillers (s\<lparr>threads := f\<rparr>) - {t})"
  by (auto simp: fillers_def at_def)

lemma at_threads [simp]:
  "at (s\<lparr>threads := f\<rparr>) u = pc (f u)"
  by (simp add: at_def)

lemma pc_threads [simp]: "pc (threads s t) = at s t"
  by (simp add: at_def)

lemma single_flight_monitor:
  assumes "single_flight s"
  shows "single_flight (monitorAndRefill t pick s)"
  using assms in_setsI[of s t] not_in_sets[of s t]
  by (cases "at s t")
     (auto simp: single_flight_def monitorAndRefill_def dest: FSet_holder)

lemma single_flight_step:
  assumes "single_flight s"
  shows "single_flight (step a s)"
proof (cases a)
  case (CallStart x y)
  with assms in_setsI[of s x] not_in_sets[of s x] in_setsI[of s y] not_in_sets[of s y]
  show ?thesis
    by (auto simp: step_def Start_def single_flight_def dest: FSet_holder)
next
  case CallStop
  with assms show ?thesis
    by (auto simp: step_def Stop_def single_flight_def)
next
  case CallGetCode
  with assms show ?thesis
    by (auto simp: step_def GetCode_def single_flight_def split: list.splits)
next
  case (Run t rd pick)
  with assms show ?thesis
    by (simp add: step_def single_flight_fill single_flight_monitor)
next
  case (Tick t)
  with assms in_setsI[of s t] not_in_sets[of s t] show ?thesis
    by (auto simp: step_def single_flight_def dest: FSet_holder split: if_splits)
next
  case (Raise t)
  with assms in_setsI[of s t] not_in_sets[of s t] show ?thesis
    by (cases "at s t") (auto simp: step_def single_flight_def dest: FSet_holder)
qed (use assms in \<open>auto simp: step_def single_flight_def write_db_def split: sum.splits\<close>)

lemma single_flight_run: "single_flight s \<Longrightarrow> single_flight (run acts s)"
  by (induction acts arbitrary: s) (simp_all add: single_flight_step)


lemmas step_defs = step_def Start_def Stop_def GetCode_def write_db_def
  fillChannel_def monitorAndRefill_def return_to_def

lemma run_append: "run (xs @ ys) s = run ys (run xs s)"
  by (induction xs arbitrary: s) simp_all

lemma codeChan_closed_step: "codeChan_closed (step a s) = codeChan_closed s"
proof (cases a)
  case (Run t rd pick)
  then show ?thesis
    by (cases "at s t")
       (auto simp: step_defs Unlock_def split: res.splits option.splits list.splits)
qed (auto simp: step_defs split: list.splits sum.splits)

lemma codeChan_open_run: "codeChan_closed (run acts s) = codeChan_closed s"
  by (induction acts arbitrary: s) (simp_all add: codeChan_closed_step)

lemma stopChan_closed_step:
  assumes "stopChan_closed s"
  shows "stopChan_closed (step a s)"
  using assms
proof (cases a)
  case (Run t rd pick)
  with assms show ?thesis
    by (cases "at s t")
       (auto simp: step_defs Unlock_def split: res.splits option.splits list.splits)
qed (auto simp: step_defs split: list.splits sum.splits)

lemma stopChan_closed_run: "stopChan_closed s \<Longrightarrow> stopChan_closed (run acts s)"
  by (induction acts arbitrary: s) (simp_all add: stopChan_closed_step)

lemma pop_once_step:
  assumes "\<not> codeChan_closed s" "received s @ codeChan s = sent s"
  shows "received (step a s) @ codeChan (step a s) = sent (step a s)"
  using assms
proof (cases a)
  case (Run t rd pick)
  with assms show ?thesis
    by (cases "at s t")
       (auto simp: step_defs Unlock_def split: res.splits option.splits list.splits)
qed (auto simp: step_defs split: list.splits sum.splits)

lemma pop_once_run:
  "\<not> codeChan_closed s \<Longrightarrow> received s @ codeChan s = sent s \<Longrightarrow>
   received (run acts s) @ codeChan (run acts s) = sent (run acts s)"
  by (induction acts arbitrary: s) (simp_all add: pop_once_step codeChan_closed_step)

lemma needs_room_filler: "needs_room l \<Longrightarrow> in_pass l"
  by (cases l) simp_all

lemma has_room_fill:
  assumes "single_flight s" "has_room s"
  shows "has_room (fillChannel t rd s)"
proof (cases "at s t")
  case (FSend code)
  have "\<not> needs_room (at s u)" if "u \<noteq> t" for u
  proof
    assume "needs_room (at s u)"
    then have "u \<in> fillers s" by (simp add: fillers_def needs_room_filler)
    moreover have "t \<in> fillers s" using FSend by (simp add: fillers_def)
    ultimately show False using assms(1) that
      by (auto simp: single_flight_def split: if_splits)
  qed
  with assms(2) FSend show ?thesis
    by (auto simp: has_room_def fillChannel_def)
qed (use assms(2) assms(2)[unfolded has_room_def, THEN conjunct2, rule_format, of t]
     in \<open>auto simp: has_room_def fillChannel_def return_to_def Unlock_def
      split: res.splits option.splits role.splits\<close>)

lemma has_room_step:
  assumes "single_flight s" "has_room s"
  shows "has_room (step a s)"
proof (cases a)
  case (Run t rd pick)
  show ?thesis
  proof (cases "in_monitor (at s t)")
    case True
    with assms(2) Run show ?thesis
      by (auto simp: step_def has_room_def monitorAndRefill_def in_monitor_def split: if_splits)
  next
    case False
    with Run has_room_fill[OF assms] assms(2) show ?thesis
      by (simp add: step_def)
  qed
next
  case (Raise t)
  with assms(2) show ?thesis
    by (auto simp: step_def has_room_def)
next
  case CallGetCode
  with assms(2) show ?thesis
    by (auto simp: step_defs has_room_def split: list.splits)
qed (use assms(2) in \<open>auto simp: step_defs has_room_def split: sum.splits\<close>)

lemma has_room_init: "has_room (NewGenerator d)"
  by (simp add: has_room_def NewGenerator_def at_def)

lemma invariants_run:
  "single_flight s \<Longrightarrow> has_room s \<Longrightarrow> single_flight (run acts s) \<and> has_room (run acts s)"
  by (induction acts arbitrary: s) (simp_all add: single_flight_step has_room_step)

subsection \<open>Single-flight refill\<close>

lemma at_fill_other: "u \<noteq> t \<Longrightarrow> at (fillChannel t rd s) u = at s u"
  by (cases "at s t")
     (auto simp: fillChannel_def split: res.splits option.splits)

lemma at_monitor_other: "u \<noteq> t \<Longrightarrow> at (monitorAndRefill t pick s) u = at s u"
  by (cases "at s t") (auto simp: monitorAndRefill_def)

lemma who_moves:
  "at (step a s) u = at s u \<or> (\<exists>rd p. a = Run u rd p) \<or> a = Raise u \<or>
   (at s u = Idle \<and> (\<exists>v. a = CallStart u v \<or> a = CallStart v u))"
proof (cases a)
  case (Run t rd pick)
  then show ?thesis
    by (cases "u = t") (auto simp: step_def at_fill_other at_monitor_other)
next
  case (Raise t)
  then show ?thesis
    by (cases "u = t") (auto simp: step_def)
next
  case (CallStart x y)
  then show ?thesis
    by (auto simp: step_def Start_def)
qed (auto simp: step_defs split: list.splits sum.splits)

lemma reach_single_flight: "single_flight (run acts (NewGenerator d))"
  by (simp add: invariants_run single_flight_init has_room_init)

lemma single_flightD:
  assumes "single_flight s"
  shows "in_pass (at s t) \<Longrightarrow> in_pass (at s u) \<Longrightarrow> t = u"
    and "isFilling s = (\<exists>t. in_pass (at s t))"
proof -
  show "in_pass (at s t) \<Longrightarrow> in_pass (at s u) \<Longrightarrow> t = u"
    using assms in_setsI(2)[of s t] in_setsI(2)[of s u]
    by (auto simp: single_flight_def split: if_splits)
  show "isFilling s = (\<exists>t. in_pass (at s t))"
    using assms by (auto simp: single_flight_def fillers_def split: if_splits)
qed

lemma busy_trigger_noop:
  assumes "at s t = FLock" "\<not> mu s" "isFilling s" "\<not> crashed s"
  shows "run [Run t rd1 p1, Run t rd2 p2, Run t rd3 p3] s = goto t (return_to (role (threads s t))) s"
  using assms
  by (cases s)
     (simp add: step_def in_monitor_def fillChannel_def at_def goto_def Unlock_def)

lemma leaving_clears_flag:
  assumes sf: "single_flight s" and sf': "single_flight (step a s)"
    and t: "in_pass (at s t)" "\<not> in_pass (at (step a s) t)"
  shows "\<not> isFilling (step a s)"
proof
  assume "isFilling (step a s)"
  with single_flightD(2)[OF sf'] obtain u where u: "in_pass (at (step a s) u)" by blast
  with t have ut: "u \<noteq> t" by auto
  with single_flightD(1)[OF sf, of t u] t(1) have "\<not> in_pass (at s u)" by auto
  with u have mu: "at (step a s) u \<noteq> at s u" by auto
  from t have mt: "at (step a s) t \<noteq> at s t" by auto
  from t(1) have ni: "at s t \<noteq> Idle" by auto
  from who_moves[of a s t] mt ni have "(\<exists>rd p. a = Run t rd p) \<or> a = Raise t" by blast
  moreover from who_moves[of a s u] mu
  have "(\<exists>rd p. a = Run u rd p) \<or> a = Raise u \<or> (\<exists>v. a = CallStart u v \<or> a = CallStart v u)"
    by blast
  ultimately show False using ut by auto
qed

text \<open>
  C3. In every state that a run from \<open>NewGenerator\<close> reaches: at most one goroutine is
  inside the filling critical section; \<open>isFilling\<close> is set exactly while one is inside,
  so it is clear whenever none is; a goroutine that calls \<open>fillChannel\<close> while the flag
  is set returns after three steps that leave every field as it was; and whatever step
  takes a goroutine out of the critical section (the channel is full, \<open>stopChan\<close> is
  closed, a panic unwinds) leaves the flag clear.
\<close>

theorem refill_single_flight:
  "(\<forall>t u. in_pass (at (run acts (NewGenerator d)) t) \<and> in_pass (at (run acts (NewGenerator d)) u)
      \<longrightarrow> t = u) \<and>
   (isFilling (run acts (NewGenerator d)) = (\<exists>t. in_pass (at (run acts (NewGenerator d)) t))) \<and>
   (\<forall>t rd1 p1 rd2 p2 rd3 p3.
      at (run acts (NewGenerator d)) t = FLock \<and> \<not> mu (run acts (NewGenerator d)) \<and>
      isFilling (run acts (NewGenerator d)) \<and> \<not> crashed (run acts (NewGenerator d))
      \<longrightarrow> run [Run t rd1 p1, Run t rd2 p2, Run t rd3 p3] (run acts (NewGenerator d)) =
          goto t (return_to (role (threads (run acts (NewGenerator d)) t))) (run acts (NewGenerator d))) \<and>
   (\<forall>a t. in_pass (at (run acts (NewGenerator d)) t) \<and>
          \<not> in_pass (at (step a (run acts (NewGenerator d))) t)
      \<longrightarrow> \<not> isFilling (step a (run acts (NewGenerator d))))"
proof -
  let ?s = "run acts (NewGenerator d)"
  have sf: "single_flight ?s" by (rule reach_single_flight)
  have sf': "single_flight (step a ?s)" for a
    using reach_single_flight[of "acts @ [a]" d] by (simp add: run_append)
  show ?thesis
    using single_flightD[OF sf] busy_trigger_noop[of ?s] leaving_clears_flag[OF sf sf']
    by blast
qed


theorem refill_single_flight_witness:
  "in_pass (at (run busy_run (NewGenerator empty_store)) 0) \<and>
   isFilling (run busy_run (NewGenerator empty_store)) \<and>
   at (run busy_run (NewGenerator empty_store)) 1 = FLock \<and>
   run [Run 1 zeros False, Run 1 zeros False, Run 1 zeros False] (run busy_run (NewGenerator empty_store)) =
     goto 1 MSelect (run busy_run (NewGenerator empty_store)) \<and>
   at (run stop_run (NewGenerator empty_store)) 0 = DClear \<and>
   at (step (Run 0 zeros False) (run stop_run (NewGenerator empty_store))) 0 = DUnlock \<and>
   \<not> isFilling (step (Run 0 zeros False) (run stop_run (NewGenerator empty_store)))"
proof -
  let ?s = "run busy_run (NewGenerator empty_store)"
  let ?u = "run stop_run (NewGenerator empty_store)"
  have h: "at ?s 1 = FLock \<and> \<not> mu ?s \<and> isFilling ?s \<and> \<not> crashed ?s"
    by code_simp
  have r: "return_to (role (threads ?s 1)) = MSelect" by code_simp
  have p: "in_pass (at ?s 0)" by code_simp
  have q: "at ?u 0 = DClear" "at (step (Run 0 zeros False) ?u) 0 = DUnlock"
    by code_simp+
  then have q': "in_pass (at ?u 0)" "\<not> in_pass (at (step (Run 0 zeros False) ?u) 0)"
    by simp_all
  from refill_single_flight[of busy_run empty_store] h
  have "run [Run 1 zeros False, Run 1 zeros False, Run 1 zeros False] ?s =
        goto 1 (return_to (role (threads ?s 1))) ?s"
    by blast
  moreover from refill_single_flight[of stop_run empty_store] q'
  have "\<not> isFilling (step (Run 0 zeros False) ?u)"
    by blast
  ultimately show ?thesis using h r p q by simp
qed

subsection \<open>Stop\<close>

lemma crashed_step: "crashed s \<Longrightarrow> step a s = s"
  by (simp add: step_def)

lemma crashed_run: "crashed s \<Longrightarrow> run acts s = s"
  by (induction acts) (simp_all add: crashed_step)

lemma second_CallStop:
  "crashed (run (acts1 @ CallStop # acts2 @ [CallStop]) s)"
proof -
  let ?b = "step CallStop (run acts1 s)"
  have "crashed ?b \<or> stopChan_closed ?b"
    by (simp add: step_def Stop_def)
  then have "crashed (run acts2 ?b) \<or> stopChan_closed (run acts2 ?b)"
    by (auto simp: crashed_run stopChan_closed_run)
  then have "crashed (step CallStop (run acts2 ?b))"
    by (auto simp: step_def Stop_def)
  then show ?thesis by (simp add: run_append)
qed

text \<open>
  C10. \<open>Stop\<close> is not idempotent. Once a call of \<open>Stop\<close> has returned, a second call
  panics, whether it comes at once or after any further steps of the system, since
  nothing reopens \<open>stopChan\<close>. In a run, the second \<open>Stop\<close> of a live process is an
  unrecovered panic: after it the process is dead.
\<close>

theorem Stop_not_idempotent:
  "(\<forall>s1. Stop s = Return s1 \<longrightarrow> Stop s1 = Panic \<and> Stop (run acts s1) = Panic) \<and>
   crashed (run (acts1 @ CallStop # acts2 @ [CallStop]) (NewGenerator d))"
proof -
  have "Stop (run acts s1) = Panic" if "Stop s = Return s1" for s1
  proof -
    from that have "stopChan_closed s1" by (auto simp: Stop_def split: if_splits)
    then have "stopChan_closed (run acts s1)" by (rule stopChan_closed_run)
    then show ?thesis by (simp add: Stop_def)
  qed
  moreover have "Stop s1 = Panic" if "Stop s = Return s1" for s1
    using that by (auto simp: Stop_def split: if_splits)
  ultimately show ?thesis using second_CallStop by blast
qed

theorem Stop_not_idempotent_witness:
  "Stop (NewGenerator empty_store) = Return ((NewGenerator empty_store)\<lparr>stopChan_closed := True\<rparr>) \<and>
   Stop ((NewGenerator empty_store)\<lparr>stopChan_closed := True\<rparr>) = Panic \<and>
   Stop (run one_turn ((NewGenerator empty_store)\<lparr>stopChan_closed := True\<rparr>)) = Panic"
proof -
  have a: "Stop (NewGenerator empty_store) = Return ((NewGenerator empty_store)\<lparr>stopChan_closed := True\<rparr>)"
    by (simp add: Stop_def NewGenerator_def)
  from Stop_not_idempotent[of "NewGenerator empty_store" one_turn] a show ?thesis by simp
qed

subsection \<open>The code channel under Stop and GetCode\<close>

lemma codeChan_step:
  "codeChan (step a s) = codeChan s \<or>
   (a = CallGetCode \<and> codeChan s \<noteq> [] \<and> codeChan (step a s) = tl (codeChan s)) \<or>
   (\<exists>t rd p code. a = Run t rd p \<and> at s t = FSend code \<and> codeChan (step a s) = codeChan s @ [code])"
proof (cases a)
  case (Run t rd pick)
  then show ?thesis
    by (cases "at s t")
       (auto simp: step_defs Unlock_def split: res.splits option.splits list.splits)
qed (auto simp: step_defs split: list.splits sum.splits)

text \<open>
  C9. No run closes \<open>codeChan\<close>. \<open>Stop\<close> leaves its buffer as it is, and so does
  every step other than a \<open>GetCode\<close>, up to codes added at the end; so \<open>GetCode\<close>
  still returns the oldest buffered code, whether \<open>stopChan\<close> is closed or not. On a
  stopped pipeline with an empty buffer \<open>GetCode\<close> does not return, and the only step
  that makes an empty buffer non-empty is a send of a goroutine at line 189.
\<close>

theorem Stop_keeps_codeChan:
  "\<not> codeChan_closed (run acts (NewGenerator d)) \<and>
   codeChan (step CallStop s) = codeChan s \<and>
   (\<forall>a. a \<noteq> CallGetCode \<longrightarrow> (\<exists>new. codeChan (step a s) = codeChan s @ new)) \<and>
   (\<forall>code rest. codeChan s = code # rest \<longrightarrow>
      GetCode s = Some (code, s\<lparr>codeChan := rest, received := received s @ [code]\<rparr>)) \<and>
   (stopChan_closed (run acts (NewGenerator d)) \<and> codeChan (run acts (NewGenerator d)) = []
      \<longrightarrow> GetCode (run acts (NewGenerator d)) = None) \<and>
   (\<forall>a. codeChan s = [] \<and> codeChan (step a s) \<noteq> [] \<longrightarrow>
      (\<exists>t rd p code. a = Run t rd p \<and> at s t = FSend code \<and> codeChan (step a s) = [code]))"
proof -
  have 1: "\<not> codeChan_closed (run acts (NewGenerator d))"
    by (simp add: codeChan_open_run NewGenerator_def)
  have 2: "codeChan (step CallStop s) = codeChan s"
    by (simp add: step_def Stop_def)
  have 3: "\<exists>new. codeChan (step a s) = codeChan s @ new" if "a \<noteq> CallGetCode" for a
    using codeChan_step[of a s] that by auto
  have 4: "GetCode s = Some (code, s\<lparr>codeChan := rest, received := received s @ [code]\<rparr>)"
    if "codeChan s = code # rest" for code rest
    using that by (simp add: GetCode_def)
  have 5: "GetCode (run acts (NewGenerator d)) = None"
    if "codeChan (run acts (NewGenerator d)) = []"
    using that 1 by (simp add: GetCode_def)
  have 6: "\<exists>t rd p code. a = Run t rd p \<and> at s t = FSend code \<and> codeChan (step a s) = [code]"
    if "codeChan s = []" "codeChan (step a s) \<noteq> []" for a
    using codeChan_step[of a s] that by auto
  from 1 2 3 4 5 6 show ?thesis by blast
qed


theorem Stop_keeps_codeChan_witness:
  "stopChan_closed (run stopped_with_code (NewGenerator empty_store)) \<and>
   codeChan (run stopped_with_code (NewGenerator empty_store)) = [''aaaaaaa''] \<and>
   GetCode (run stopped_with_code (NewGenerator empty_store)) =
     Some (''aaaaaaa'', (run stopped_with_code (NewGenerator empty_store))
        \<lparr>codeChan := [], received := received (run stopped_with_code (NewGenerator empty_store)) @ [''aaaaaaa'']\<rparr>) \<and>
   stopChan_closed (run [CallStop] (NewGenerator empty_store)) \<and>
   codeChan (run [CallStop] (NewGenerator empty_store)) = [] \<and>
   GetCode (run [CallStop] (NewGenerator empty_store)) = None \<and>
   codeChan (run before_send (NewGenerator empty_store)) = [] \<and>
   at (run before_send (NewGenerator empty_store)) 0 = FSend ''aaaaaaa'' \<and>
   codeChan (step (Run 0 zeros False) (run before_send (NewGenerator empty_store))) = [''aaaaaaa'']"
proof -
  let ?s = "run stopped_with_code (NewGenerator empty_store)"
  let ?e = "run [CallStop] (NewGenerator empty_store)"
  let ?b = "run before_send (NewGenerator empty_store)"
  have a: "stopChan_closed ?s" "codeChan ?s = [''aaaaaaa'']" by code_simp+
  have b: "stopChan_closed ?e" "codeChan ?e = []" by code_simp+
  have c: "codeChan ?b = []" "at ?b 0 = FSend ''aaaaaaa''"
    "codeChan (step (Run 0 zeros False) ?b) = [''aaaaaaa'']" by code_simp+
  from Stop_keeps_codeChan[of stopped_with_code empty_store ?s] a
  have "GetCode ?s = Some (''aaaaaaa'', ?s\<lparr>codeChan := [], received := received ?s @ [''aaaaaaa'']\<rparr>)"
    by blast
  moreover from Stop_keeps_codeChan[of "[CallStop]" empty_store] b
  have "GetCode ?e = None" by blast
  ultimately show ?thesis using a b c by simp
qed

subsection \<open>Distinctness of the buffered codes\<close>

text \<open>
  C5 as stated fails. On an empty store, with a source of randomness that draws the same
  seven numbers twice, two turns of the loop leave \<open>aaaaaaa\<close> twice in the buffer, and
  two calls of \<open>GetCode\<close> both return it: \<open>isCodeExist\<close> looks at the store only, never
  at the buffer.
\<close>

theorem duplicate_codes_counterexample:
  "\<not> distinct (codeChan (run two_turns (NewGenerator empty_store))) \<and>
   received (run (two_turns @ [CallGetCode, CallGetCode]) (NewGenerator empty_store)) =
     [''aaaaaaa'', ''aaaaaaa'']"
  by code_simp

text \<open>
  C5, amended. The buffer hands out every entry once: in every reachable state the codes
  received through \<open>GetCode\<close>, followed by the codes still buffered, are exactly the
  codes sent, in the order of sending. Hence the buffered codes are mutually distinct,
  and no two \<open>GetCode\<close> calls return the same string, whenever no string was sent twice.
\<close>

theorem pop_once:
  "received (run acts (NewGenerator d)) @ codeChan (run acts (NewGenerator d)) =
     sent (run acts (NewGenerator d)) \<and>
   (distinct (sent (run acts (NewGenerator d))) \<longrightarrow>
      distinct (codeChan (run acts (NewGenerator d))) \<and>
      distinct (received (run acts (NewGenerator d))) \<and>
      set (codeChan (run acts (NewGenerator d))) \<inter> set (received (run acts (NewGenerator d))) = {})"
proof -
  have "received (run acts (NewGenerator d)) @ codeChan (run acts (NewGenerator d)) =
     sent (run acts (NewGenerator d))"
    by (rule pop_once_run) (simp_all add: NewGenerator_def)
  then show ?thesis by (metis distinct_append inf_commute)
qed

theorem pop_once_witness:
  "sent (run (two_codes @ [CallGetCode]) (NewGenerator empty_store)) = [''aaaaaaa'', ''bbbbbbb''] \<and>
   received (run (two_codes @ [CallGetCode]) (NewGenerator empty_store)) = [''aaaaaaa''] \<and>
   codeChan (run (two_codes @ [CallGetCode]) (NewGenerator empty_store)) = [''bbbbbbb''] \<and>
   distinct (codeChan (run (two_codes @ [CallGetCode]) (NewGenerator empty_store))) \<and>
   distinct (received (run (two_codes @ [CallGetCode]) (NewGenerator empty_store)))"
proof -
  let ?s = "run (two_codes @ [CallGetCode]) (NewGenerator empty_store)"
  have a: "sent ?s = [''aaaaaaa'', ''bbbbbbb'']" "received ?s = [''aaaaaaa'']"
    "codeChan ?s = [''bbbbbbb'']" by code_simp+
  then have "distinct (sent ?s)" by simp
  with pop_once[of "two_codes @ [CallGetCode]" empty_store]
  have "distinct (codeChan ?s) \<and> distinct (received ?s)" by blast
  with a show ?thesis by simp
qed

subsection \<open>The stop signal\<close>









subsection \<open>Every send follows a probe\<close>

lemma enters_FSend:
  assumes "at (step a s) t = FSend code" "at s t \<noteq> FSend code"
  shows "at s t = FRet code None \<and> code \<noteq> ''''"
proof -
  from assms have "at (step a s) t \<noteq> at s t" by simp
  with who_moves[of a s t] consider rd p where "a = Run t rd p" | "a = Raise t"
    | v where "a = CallStart t v \<or> a = CallStart v t" by blast
  then show ?thesis
  proof cases
    case 1
    with assms show ?thesis
      by (cases "at s t")
         (auto simp: step_def in_monitor_def fillChannel_def monitorAndRefill_def return_to_def
               split: res.splits option.splits if_splits role.splits)
  next
    case 2
    with assms show ?thesis by (auto simp: step_def split: if_splits)
  next
    case 3
    with assms show ?thesis by (auto simp: step_def Start_def split: if_splits)
  qed
qed

lemma enters_FRet:
  assumes "at (step a s) t = FRet code None" "code \<noteq> ''''" "at s t \<noteq> FRet code None"
  shows "\<exists>i rd p. a = Run t rd p \<and> at s t = Probe i code \<and> \<not> isCodeExist (db s) code"
proof -
  from assms have "at (step a s) t \<noteq> at s t" by simp
  with who_moves[of a s t] consider rd p where "a = Run t rd p" | "a = Raise t"
    | v where "a = CallStart t v \<or> a = CallStart v t" by blast
  then show ?thesis
  proof cases
    case 1
    with assms show ?thesis
      by (cases "at s t")
         (auto simp: step_def in_monitor_def fillChannel_def monitorAndRefill_def return_to_def
               split: res.splits option.splits if_splits role.splits)
  next
    case 2
    with assms show ?thesis by (auto simp: step_def split: if_splits)
  next
    case 3
    with assms show ?thesis by (auto simp: step_def Start_def split: if_splits)
  qed
qed

lemma sends_from_FSend:
  assumes "sent (step a s) \<noteq> sent s"
  shows "\<exists>t rd p code. a = Run t rd p \<and> at s t = FSend code \<and> sent (step a s) = sent s @ [code] \<and>
           codeChan (step a s) = codeChan s @ [code]"
proof (cases a)
  case (Run t rd pick)
  with assms show ?thesis
    by (cases "at s t")
       (auto simp: step_defs Unlock_def in_monitor_def split: res.splits option.splits if_splits)
qed (use assms in \<open>auto simp: step_defs split: list.splits sum.splits if_splits\<close>)

lemma isCodeExist_iff:
  "isCodeExist d code = (unavailable d \<or> code \<in> ShortCode ` set (short_links d))"
proof -
  have "(0 < length (filter (\<lambda>r. ShortCode r = code) (short_links d))) =
        (code \<in> ShortCode ` set (short_links d))"
    by (auto simp: length_greater_0_conv filter_empty_conv simp del: length_greater_0_conv)
  then show ?thesis
    by (simp add: isCodeExist_def count_short_code_def)
qed




lemma at_NewGenerator: "at (NewGenerator d) t = Idle"
  by (simp add: NewGenerator_def at_def del: pc_threads)

lemma verified_before_send:
  assumes "(at (run acts (NewGenerator d)) t = FRet code None \<and> code \<noteq> '''') \<or>
           at (run acts (NewGenerator d)) t = FSend code"
  shows "\<exists>pre rd p post i. acts = pre @ Run t rd p # post \<and>
           at (run pre (NewGenerator d)) t = Probe i code \<and>
           \<not> isCodeExist (db (run pre (NewGenerator d))) code \<and>
           (\<forall>k\<le>length post.
              at (run (pre @ Run t rd p # take k post) (NewGenerator d)) t = FRet code None \<or>
              at (run (pre @ Run t rd p # take k post) (NewGenerator d)) t = FSend code)"
  using assms
proof (induction acts rule: rev_induct)
  case Nil
  then show ?case by (simp add: at_NewGenerator)
next
  case (snoc a acts)
  let ?s = "run acts (NewGenerator d)"
  have s': "run (acts @ [a]) (NewGenerator d) = step a ?s" by (simp add: run_append)
  show ?case
  proof (cases "(at ?s t = FRet code None \<and> code \<noteq> '''') \<or> at ?s t = FSend code")
    case True
    from snoc.IH[OF True] obtain pre rd p post i where
      dec: "acts = pre @ Run t rd p # post"
      and pr: "at (run pre (NewGenerator d)) t = Probe i code"
              "\<not> isCodeExist (db (run pre (NewGenerator d))) code"
      and mid: "\<forall>k\<le>length post.
              at (run (pre @ Run t rd p # take k post) (NewGenerator d)) t = FRet code None \<or>
              at (run (pre @ Run t rd p # take k post) (NewGenerator d)) t = FSend code"
      by (elim exE conjE)
    define post' where "post' = post @ [a]"
    have dec': "acts @ [a] = pre @ Run t rd p # post'"
      using dec by (simp add: post'_def)
    have mid': "at (run (pre @ Run t rd p # take k post') (NewGenerator d)) t = FRet code None \<or>
          at (run (pre @ Run t rd p # take k post') (NewGenerator d)) t = FSend code"
      if k: "k \<le> length post'" for k
    proof (cases "k \<le> length post")
      case True
      then have "take k post' = take k post" by (simp add: post'_def)
      with mid True show ?thesis by simp
    next
      case False
      with k have "take k post' = post'" by (simp add: post'_def)
      with dec' have "run (pre @ Run t rd p # take k post') (NewGenerator d) =
                      run (acts @ [a]) (NewGenerator d)" by simp
      with snoc.prems show ?thesis by metis
    qed
    show ?thesis
      apply (rule exI[of _ pre], rule exI[of _ rd], rule exI[of _ p], rule exI[of _ post'], rule exI[of _ i])
      using dec' pr mid' apply blast
      done
  next
    case False
    from False snoc.prems s' enters_FSend[of a ?s t code]
    have r: "at (step a ?s) t = FRet code None" "code \<noteq> ''''" "at ?s t \<noteq> FRet code None"
      by auto
    from enters_FRet[OF r] obtain i rd p where
      a: "a = Run t rd p" "at ?s t = Probe i code" "\<not> isCodeExist (db ?s) code"
      by blast
    have "acts @ [a] = acts @ Run t rd p # []" using a(1) by simp
    moreover have "\<forall>k\<le>length ([]::action list).
        at (run (acts @ Run t rd p # take k []) (NewGenerator d)) t = FRet code None \<or>
        at (run (acts @ Run t rd p # take k []) (NewGenerator d)) t = FSend code"
      using r(1) s' a(1) by simp
    ultimately show ?thesis using a(2,3)
      apply -
      apply (rule exI[of _ acts], rule exI[of _ rd], rule exI[of _ p], rule exI[of _ "[]"], rule exI[of _ i])
      apply blast
      done
  qed
qed

text \<open>
  C1. Whenever a step of a run from \<open>NewGenerator\<close> sends a code into \<open>codeChan\<close>, it is
  the step of a goroutine at line 189 with that code; earlier in the run the same
  goroutine probed the store for that code at line 203, and the probe reported that it
  did not exist: no row of \<open>short_links\<close>, active or not, carried it; and from that probe
  up to the send the goroutine has only been at the check of the returned pair (lines
  183-188) and at the send itself.
\<close>

theorem send_only_after_probe:
  assumes "sent (step a (run acts (NewGenerator d))) \<noteq> sent (run acts (NewGenerator d))"
  shows "\<exists>t rd p code.
           a = Run t rd p \<and> at (run acts (NewGenerator d)) t = FSend code \<and>
           sent (step a (run acts (NewGenerator d))) = sent (run acts (NewGenerator d)) @ [code] \<and>
           codeChan (step a (run acts (NewGenerator d))) = codeChan (run acts (NewGenerator d)) @ [code] \<and>
           (\<exists>pre rd' p' post i.
              acts = pre @ Run t rd' p' # post \<and>
              at (run pre (NewGenerator d)) t = Probe i code \<and>
              \<not> isCodeExist (db (run pre (NewGenerator d))) code \<and>
              code \<notin> ShortCode ` set (short_links (db (run pre (NewGenerator d)))) \<and>
              (\<forall>k\<le>length post.
                 at (run (pre @ Run t rd' p' # take k post) (NewGenerator d)) t = FRet code None \<or>
                 at (run (pre @ Run t rd' p' # take k post) (NewGenerator d)) t = FSend code))"
proof -
  from sends_from_FSend[OF assms] obtain t rd p code where
    a: "a = Run t rd p" "at (run acts (NewGenerator d)) t = FSend code"
       "sent (step a (run acts (NewGenerator d))) = sent (run acts (NewGenerator d)) @ [code]"
       "codeChan (step a (run acts (NewGenerator d))) = codeChan (run acts (NewGenerator d)) @ [code]"
    by blast
  from verified_before_send[of acts d t code] a(2) obtain pre rd' p' post i where
    b: "acts = pre @ Run t rd' p' # post"
       "at (run pre (NewGenerator d)) t = Probe i code"
       "\<not> isCodeExist (db (run pre (NewGenerator d))) code"
       "\<forall>k\<le>length post.
          at (run (pre @ Run t rd' p' # take k post) (NewGenerator d)) t = FRet code None \<or>
          at (run (pre @ Run t rd' p' # take k post) (NewGenerator d)) t = FSend code"
    by blast
  from b(3) have "code \<notin> ShortCode ` set (short_links (db (run pre (NewGenerator d))))"
    by (simp add: isCodeExist_iff)
  with b have "\<exists>pre rd' p' post i.
              acts = pre @ Run t rd' p' # post \<and>
              at (run pre (NewGenerator d)) t = Probe i code \<and>
              \<not> isCodeExist (db (run pre (NewGenerator d))) code \<and>
              code \<notin> ShortCode ` set (short_links (db (run pre (NewGenerator d)))) \<and>
              (\<forall>k\<le>length post.
                 at (run (pre @ Run t rd' p' # take k post) (NewGenerator d)) t = FRet code None \<or>
                 at (run (pre @ Run t rd' p' # take k post) (NewGenerator d)) t = FSend code)"
    apply -
    apply (rule exI[of _ pre], rule exI[of _ rd'], rule exI[of _ p'], rule exI[of _ post], rule exI[of _ i])
    apply simp
    done
  with a show ?thesis
    apply -
    apply (rule exI[of _ t], rule exI[of _ rd], rule exI[of _ p], rule exI[of _ code])
    apply simp
    done
qed

theorem send_only_after_probe_witness:
  "sent (step (Run 0 zeros False) (run before_send (NewGenerator empty_store))) = [''aaaaaaa''] \<and>
   sent (run before_send (NewGenerator empty_store)) = [] \<and>
   (\<exists>t rd p code.
      Run 0 zeros False = Run t rd p \<and> at (run before_send (NewGenerator empty_store)) t = FSend code \<and>
      (\<exists>pre rd' p' post i.
         before_send = pre @ Run t rd' p' # post \<and>
         at (run pre (NewGenerator empty_store)) t = Probe i code \<and>
         \<not> isCodeExist (db (run pre (NewGenerator empty_store))) code))"
proof -
  have h: "sent (step (Run 0 zeros False) (run before_send (NewGenerator empty_store))) = [''aaaaaaa'']"
    "sent (run before_send (NewGenerator empty_store)) = []"
    by code_simp+
  then have "sent (step (Run 0 zeros False) (run before_send (NewGenerator empty_store))) \<noteq>
             sent (run before_send (NewGenerator empty_store))"
    by simp
  from send_only_after_probe[OF this] obtain t rd p code pre rd' p' post i where
    w: "Run 0 zeros False = Run t rd p"
       "at (run before_send (NewGenerator empty_store)) t = FSend code"
       "before_send = pre @ Run t rd' p' # post"
       "at (run pre (NewGenerator empty_store)) t = Probe i code"
       "\<not> isCodeExist (db (run pre (NewGenerator empty_store))) code"
    by (elim exE conjE)
  have "\<exists>t rd p code.
      Run 0 zeros False = Run t rd p \<and> at (run before_send (NewGenerator empty_store)) t = FSend code \<and>
      (\<exists>pre rd' p' post i.
         before_send = pre @ Run t rd' p' # post \<and>
         at (run pre (NewGenerator empty_store)) t = Probe i code \<and>
         \<not> isCodeExist (db (run pre (NewGenerator empty_store))) code)"
    apply (rule exI[of _ t], rule exI[of _ rd], rule exI[of _ p], rule exI[of _ code])
    apply (intro conjI)
      apply (rule w(1))
     apply (rule w(2))
    apply (rule exI[of _ pre], rule exI[of _ rd'], rule exI[of _ p'], rule exI[of _ post], rule exI[of _ i])
    apply (intro conjI)
      apply (rule w(3))
     apply (rule w(4))
    apply (rule w(5))
    done
  with h show ?thesis by (intro conjI)
qed

subsection \<open>Retired codes\<close>

text \<open>
  The count query has no condition on \<open>is_active\<close>: a deactivated link keeps its code
  taken. A deleted link does not: its row is gone.
\<close>

lemma codes_toggle_first: "ShortCode ` set (toggle_first code rs) = ShortCode ` set rs"
  by (induction rs) auto

lemma ToggleLink_keeps_codes:
  "ToggleLink d code' = Inr d' \<Longrightarrow> isCodeExist d' code = isCodeExist d code"
proof -
  assume "ToggleLink d code' = Inr d'"
  then have "unavailable d' = unavailable d"
    and "short_links d' = toggle_first code' (short_links d)"
    by (simp_all add: ToggleLink_def split: if_splits) auto
  then show ?thesis
    by (simp add: isCodeExist_iff codes_toggle_first)
qed

lemma DeleteLink_frees_code:
  "DeleteLink d code = Inr d' \<Longrightarrow> \<not> isCodeExist d' code"
  by (auto simp: DeleteLink_def isCodeExist_iff split: if_splits)

text \<open>
  C6 at a concrete input. The link \<open>aaaaaaa\<close> is created; \<open>isCodeExist\<close> reports it, also
  after \<open>ToggleLink\<close> has deactivated it. After \<open>DeleteLink\<close> the store is empty again,
  \<open>isCodeExist\<close> reports the code as free, \<open>generateUniqueCode\<close> accepts it, a run of
  the generator hands it to the next \<open>GetCode\<close>, and \<open>Create\<close> stores it for another
  URL: the retired code is reused.
\<close>

theorem deleted_code_is_reissued:
  "Create empty_store ''aaaaaaa'' ''https://example.org'' = Inr one_link \<and>
   isCodeExist one_link ''aaaaaaa'' \<and>
   ToggleLink one_link ''aaaaaaa'' = Inr one_link_off \<and>
   isCodeExist one_link_off ''aaaaaaa'' \<and>
   DeleteLink one_link ''aaaaaaa'' = Inr empty_store \<and>
   \<not> isCodeExist empty_store ''aaaaaaa'' \<and>
   generateUniqueCode empty_store zeros = Return (''aaaaaaa'', None) \<and>
   db (run reissue_run (NewGenerator empty_store)) = empty_store \<and>
   received (run reissue_run (NewGenerator empty_store)) = [''aaaaaaa''] \<and>
   (case Create (db (run reissue_run (NewGenerator empty_store))) ''aaaaaaa'' ''https://other.example'' of
      Inl err \<Rightarrow> []
    | Inr d' \<Rightarrow> map (\<lambda>r. (ShortCode r, OriginalURL r)) (short_links d')) =
     [(''aaaaaaa'', ''https://other.example'')]"
  by code_simp

subsection \<open>generateUniqueCode inside the interleaving\<close>

text \<open>
  The iterations of \<open>generateUniqueCode\<close> that \<open>fillChannel\<close> steps through compute
  what \<open>attempts\<close> computes, when nothing else runs in between: the goroutine arrives
  at line 182 with the pair that \<open>generateUniqueCode\<close> returns on the store of that
  moment, or unwinds when it panics.
\<close>

lemma goto_goto [simp]: "goto t l (goto t l' s) = goto t l s"
  by (simp add: goto_def)

lemma solo_attempts_refines:
  assumes "at s t = Gen (10 - k)" "k \<le> 10" "\<not> crashed s"
  shows "solo_attempts k t rd s =
           (case attempts k (db s) rd of
              Return (code, err) \<Rightarrow> goto t (FRet code err) s
            | Panic \<Rightarrow> unwind t s)"
  using assms
proof (induction k arbitrary: rd s)
  case 0
  then show ?case
    by (simp add: step_def in_monitor_def fillChannel_def)
next
  case (Suc k)
  from Suc.prems have lt: "10 - Suc k < 10" by simp
  show ?case
  proof (cases "generateRandomString CodeLength rd")
    case Panic
    with Suc.prems lt show ?thesis
      by (simp add: step_def in_monitor_def fillChannel_def)
  next
    case (Return r)
    obtain code err where r: "r = (code, err)" by (cases r)
    show ?thesis
    proof (cases err)
      case (Some e)
      with Suc.prems lt Return r show ?thesis
        by (simp add: step_def in_monitor_def fillChannel_def)
    next
      case None
      show ?thesis
      proof (cases "isCodeExist (db s) code")
        case False
        with Suc.prems lt Return r None show ?thesis
          by (simp add: step_def in_monitor_def fillChannel_def)
      next
        case True
        let ?s2 = "goto t (Gen (Suc (10 - Suc k))) s"
        have g: "Suc (10 - Suc k) = 10 - k" using Suc.prems by simp
        have "solo_attempts k t (\<lambda>j. rd (j + CodeLength)) ?s2 =
           (case attempts k (db ?s2) (\<lambda>j. rd (j + CodeLength)) of
              Return (code, err) \<Rightarrow> goto t (FRet code err) ?s2
            | Panic \<Rightarrow> unwind t ?s2)"
          by (rule Suc.IH) (use Suc.prems g in simp_all)
        moreover have "unwind t ?s2 = unwind t s"
          by (simp add: unwind_def goto_def)
        ultimately show ?thesis
          using Suc.prems lt Return r None True
          by (simp add: step_def in_monitor_def fillChannel_def split: res.splits prod.splits)
      qed
    qed
  qed
qed

lemma solo_generateUniqueCode:
  assumes "at s t = Gen 0" "\<not> crashed s"
  shows "solo_attempts 10 t rd s =
           (case generateUniqueCode (db s) rd of
              Return (code, err) \<Rightarrow> goto t (FRet code err) s
            | Panic \<Rightarrow> unwind t s)"
  using solo_attempts_refines[of s t 10 rd] assms
  by (simp add: generateUniqueCode_def)

subsection \<open>The bound on one candidate and the retry of the loop\<close>

lemma goto_same: "at s t = l \<Longrightarrow> goto t l s = s"
  by (cases s) (auto simp: goto_def at_def simp del: pc_threads)

lemma empty_result_retries:
  assumes "at s t = FRet '''' None" "\<not> crashed s"
  shows "step (Run t rd p) s = goto t FLoop s"
  using assms by (simp add: step_def in_monitor_def fillChannel_def)

lemma retry_reaches_Gen:
  assumes "at s t = FRet '''' None" "\<not> crashed s"
    "length (codeChan s) < ChannelBufferSize" "\<not> stopChan_closed s"
  shows "run [Run t r1 p1, Run t r2 p2, Run t r3 p3] s = goto t (Gen 0) s"
  using assms by (simp add: step_def in_monitor_def fillChannel_def)

lemma failed_attempt_is_noop:
  assumes "at s t = Gen 0" "\<not> crashed s" "\<not> stopChan_closed s"
    "length (codeChan s) < ChannelBufferSize"
    "\<forall>i<10. \<exists>c. candidate rd i = Return (c, None) \<and> isCodeExist (db s) c"
  shows "run [Run t r1 p1, Run t r2 p2, Run t r3 p3] (solo_attempts 10 t rd s) = s"
proof -
  from assms(5) have "generateUniqueCode (db s) rd = Return ('''', None)"
    unfolding generateUniqueCode_def by (rule attempts_exhausted)
  with solo_generateUniqueCode[OF assms(1,2), of rd]
  have e: "solo_attempts 10 t rd s = goto t (FRet '''' None) s" by simp
  have "run [Run t r1 p1, Run t r2 p2, Run t r3 p3] (goto t (FRet '''' None) s) =
        goto t (Gen 0) (goto t (FRet '''' None) s)"
    by (rule retry_reaches_Gen) (use assms in simp_all)
  with e assms(1) show ?thesis by (simp add: goto_same)
qed

text \<open>
  C4. \<open>generateUniqueCode\<close> runs at most 10 generate-and-probe cycles: it returns the
  first candidate that the probe reports as not existing, provided that one is among the
  first ten; when the probe reports all ten as existing it returns the empty string and
  no error; and its result depends on the outcomes of the first \<open>10 * CodeLength\<close> draws
  only, so there is no eleventh cycle. Inside \<open>fillChannel\<close>, a goroutine that starts the
  call at line 182 and runs through it arrives at the check of the returned pair with
  what \<open>generateUniqueCode\<close> returns. With the empty string and no error its next step
  sends nothing and goes back to the loop test, and while the channel has room and
  \<open>stopChan\<close> is open two more steps bring it to the first iteration of a new call:
  after ten taken candidates the state is as it was before the attempt, and the loop
  tries again.
\<close>

theorem generateUniqueCode_bounded:
  "(\<forall>k code. k < 10 \<and> (\<forall>i<k. \<exists>c. candidate rd i = Return (c, None) \<and> isCodeExist d c) \<and>
       candidate rd k = Return (code, None) \<and> \<not> isCodeExist d code
       \<longrightarrow> generateUniqueCode d rd = Return (code, None)) \<and>
   ((\<forall>i<10. \<exists>c. candidate rd i = Return (c, None) \<and> isCodeExist d c)
       \<longrightarrow> generateUniqueCode d rd = Return ('''', None)) \<and>
   (\<forall>rd'. (\<forall>j<10 * CodeLength. rd j = rd' j)
       \<longrightarrow> generateUniqueCode d rd = generateUniqueCode d rd') \<and>
   (\<forall>s t. at s t = Gen 0 \<and> \<not> crashed s
       \<longrightarrow> solo_attempts 10 t rd s =
             (case generateUniqueCode (db s) rd of
                Return (code, err) \<Rightarrow> goto t (FRet code err) s
              | Panic \<Rightarrow> unwind t s)) \<and>
   (\<forall>s t r p. at s t = FRet '''' None \<and> \<not> crashed s
       \<longrightarrow> step (Run t r p) s = goto t FLoop s) \<and>
   (\<forall>s t r1 p1 r2 p2 r3 p3. at s t = FRet '''' None \<and> \<not> crashed s \<and>
       length (codeChan s) < ChannelBufferSize \<and> \<not> stopChan_closed s
       \<longrightarrow> run [Run t r1 p1, Run t r2 p2, Run t r3 p3] s = goto t (Gen 0) s) \<and>
   (\<forall>s t r1 p1 r2 p2 r3 p3. at s t = Gen 0 \<and> \<not> crashed s \<and> \<not> stopChan_closed s \<and>
       length (codeChan s) < ChannelBufferSize \<and>
       (\<forall>i<10. \<exists>c. candidate rd i = Return (c, None) \<and> isCodeExist (db s) c)
       \<longrightarrow> run [Run t r1 p1, Run t r2 p2, Run t r3 p3] (solo_attempts 10 t rd s) = s)"
proof -
  have 1: "\<forall>k code. k < 10 \<and> (\<forall>i<k. \<exists>c. candidate rd i = Return (c, None) \<and> isCodeExist d c) \<and>
       candidate rd k = Return (code, None) \<and> \<not> isCodeExist d code
       \<longrightarrow> generateUniqueCode d rd = Return (code, None)"
    unfolding generateUniqueCode_def using attempts_first_fresh[of _ 10 rd d] by blast
  have 2: "(\<forall>i<10. \<exists>c. candidate rd i = Return (c, None) \<and> isCodeExist d c)
       \<longrightarrow> generateUniqueCode d rd = Return ('''', None)"
    unfolding generateUniqueCode_def using attempts_exhausted[of 10 rd d] by blast
  have 3: "\<forall>rd'. (\<forall>j<10 * CodeLength. rd j = rd' j)
       \<longrightarrow> generateUniqueCode d rd = generateUniqueCode d rd'"
    unfolding generateUniqueCode_def using attempts_cong[of 10 rd _ d] by blast
  have 4: "\<forall>s t. at s t = Gen 0 \<and> \<not> crashed s
       \<longrightarrow> solo_attempts 10 t rd s =
             (case generateUniqueCode (db s) rd of
                Return (code, err) \<Rightarrow> goto t (FRet code err) s
              | Panic \<Rightarrow> unwind t s)"
    using solo_generateUniqueCode by blast
  have 5: "\<forall>s t r p. at s t = FRet '''' None \<and> \<not> crashed s
       \<longrightarrow> step (Run t r p) s = goto t FLoop s"
    using empty_result_retries by blast
  have 6: "\<forall>s t r1 p1 r2 p2 r3 p3. at s t = FRet '''' None \<and> \<not> crashed s \<and>
       length (codeChan s) < ChannelBufferSize \<and> \<not> stopChan_closed s
       \<longrightarrow> run [Run t r1 p1, Run t r2 p2, Run t r3 p3] s = goto t (Gen 0) s"
    using retry_reaches_Gen by blast
  have 7: "\<forall>s t r1 p1 r2 p2 r3 p3. at s t = Gen 0 \<and> \<not> crashed s \<and> \<not> stopChan_closed s \<and>
       length (codeChan s) < ChannelBufferSize \<and>
       (\<forall>i<10. \<exists>c. candidate rd i = Return (c, None) \<and> isCodeExist (db s) c)
       \<longrightarrow> run [Run t r1 p1, Run t r2 p2, Run t r3 p3] (solo_attempts 10 t rd s) = s"
    using failed_attempt_is_noop by blast
  from 1 2 3 4 5 6 7 show ?thesis by (intro conjI)
qed

theorem generateUniqueCode_bounded_witness:
  "list_all (taken_candidate nine_codes by_sevens) [0..<9] \<and>
   candidate by_sevens 9 = Return (''jjjjjjj'', None) \<and> \<not> isCodeExist nine_codes ''jjjjjjj'' \<and>
   generateUniqueCode nine_codes by_sevens = Return (''jjjjjjj'', None) \<and>
   list_all (taken_candidate nine_codes zeros) [0..<10] \<and>
   generateUniqueCode nine_codes zeros = Return ('''', None) \<and>
   at (run first_call (NewGenerator nine_codes)) 0 = Gen 0 \<and>
   list_all (taken_candidate (db (run first_call (NewGenerator nine_codes))) zeros) [0..<10] \<and>
   solo_attempts 10 0 zeros (run first_call (NewGenerator nine_codes)) =
     goto 0 (FRet '''' None) (run first_call (NewGenerator nine_codes)) \<and>
   sent (solo_attempts 10 0 zeros (run first_call (NewGenerator nine_codes))) = [] \<and>
   run [Run 0 zeros False, Run 0 zeros False, Run 0 zeros False]
     (solo_attempts 10 0 zeros (run first_call (NewGenerator nine_codes))) =
     run first_call (NewGenerator nine_codes)"
proof -
  let ?w = "run first_call (NewGenerator nine_codes)"
  note h9 = taken_candidateD[rule_format, OF nine_codes_hyp]
  note h10 = taken_candidateD[rule_format, OF all_a_hyp]
  note fresh = generateUniqueCode_bounded[of by_sevens nine_codes, THEN conjunct1, rule_format]
  note taken = generateUniqueCode_bounded[of zeros nine_codes, THEN conjunct2, THEN conjunct1,
      rule_format]
  note call = generateUniqueCode_bounded[of zeros nine_codes, THEN conjunct2, THEN conjunct2,
      THEN conjunct2, THEN conjunct1, rule_format]
  note again = generateUniqueCode_bounded[of zeros nine_codes, THEN conjunct2, THEN conjunct2,
      THEN conjunct2, THEN conjunct2, THEN conjunct2, THEN conjunct2, rule_format]
  have "(9::nat) < 10 \<and>
        (\<forall>i<9. \<exists>c. candidate by_sevens i = Return (c, None) \<and> isCodeExist nine_codes c) \<and>
        candidate by_sevens 9 = Return (''jjjjjjj'', None) \<and> \<not> isCodeExist nine_codes ''jjjjjjj''"
    using h9 nine_codes_tenth by simp
  then have a: "generateUniqueCode nine_codes by_sevens = Return (''jjjjjjj'', None)"
    by (rule fresh)
  have b: "generateUniqueCode nine_codes zeros = Return ('''', None)"
    by (rule taken) (use h10 in simp)
  have w: "at ?w 0 = Gen 0" "\<not> crashed ?w" "\<not> stopChan_closed ?w"
    "length (codeChan ?w) < ChannelBufferSize"
    "list_all (taken_candidate (db ?w) zeros) [0..<10]"
    "sent (solo_attempts 10 0 zeros ?w) = []"
    "generateUniqueCode (db ?w) zeros = Return ('''', None)"
    by code_simp+
  note hw = taken_candidateD[rule_format, OF w(5)]
  have "solo_attempts 10 0 zeros ?w =
          (case generateUniqueCode (db ?w) zeros of
             Return (code, err) \<Rightarrow> goto 0 (FRet code err) ?w
           | Panic \<Rightarrow> unwind 0 ?w)"
    by (rule call) (use w(1,2) in simp)
  with w(7) have c: "solo_attempts 10 0 zeros ?w = goto 0 (FRet '''' None) ?w" by simp
  have e: "run [Run 0 zeros False, Run 0 zeros False, Run 0 zeros False]
             (solo_attempts 10 0 zeros ?w) = ?w"
    by (rule again) (use w(1,2,3,4) hw in simp)
  from a b c e w(1,5,6) nine_codes_hyp all_a_hyp nine_codes_tenth show ?thesis
    by (intro conjI) simp_all
qed

subsection \<open>After the stop signal\<close>














end
